theory Spec2Isabelle
  imports Main "HOL-Library.Product_Lexorder" "HOL-Library.List_Lexorder" "HOL-Library.Char_ord"
begin

section \<open>Text, character classes and the string helpers of the standard library\<close>

text \<open>
  A text is a list of code points. The development covers texts whose code points lie
  below 256, the range of \<^typ>\<open>char\<close>. In that range Python's \<^verbatim>\<open>\s\<close> and
  \<^verbatim>\<open>str.strip()\<close> agree on the twelve characters of \<open>is_space\<close>, and
  \<^verbatim>\<open>\d\<close> accepts the ten ASCII digits only.
\<close>

abbreviation newline :: char where
  "newline \<equiv> CHR 0x0A"

definition is_space :: "char \<Rightarrow> bool" where
  "is_space c = (c \<in> set [CHR 0x09, CHR 0x0A, CHR 0x0B, CHR 0x0C, CHR 0x0D,
                            CHR 0x1C, CHR 0x1D, CHR 0x1E, CHR 0x1F, CHR 0x20,
                            CHR 0x85, CHR 0xA0])"

definition is_digit :: "char \<Rightarrow> bool" where
  "is_digit c = (c \<in> set ''0123456789'')"

definition startswith :: "string \<Rightarrow> string \<Rightarrow> bool" where
  "startswith s p = (take (length p) s = p)"

definition strip :: "string \<Rightarrow> string" where
  "strip s = rev (dropWhile is_space (rev (dropWhile is_space s)))"

text \<open>\<^verbatim>\<open>s[i:j]\<close> for \<open>0 \<le> i\<close> and \<open>0 \<le> j\<close>; empty when \<open>j \<le> i\<close>.\<close>

definition slice :: "string \<Rightarrow> nat \<Rightarrow> nat \<Rightarrow> string" where
  "slice s i j = take (j - i) (drop i s)"

text \<open>\<^verbatim>\<open>s.split(sep)\<close> for a one-character separator.\<close>

fun split_on :: "char \<Rightarrow> string \<Rightarrow> string list" where
  "split_on sep [] = [[]]"
| "split_on sep (c # cs) =
     (if c = sep then [] # split_on sep cs
      else (case split_on sep cs of
              w # ws \<Rightarrow> (c # w) # ws
            | [] \<Rightarrow> [[c]]))"

section \<open>Regular expressions as the source uses them\<close>

text \<open>
  The patterns of the source are sequences of anchors, literal characters and greedy
  repetitions of a character class. \<open>Many cl lo hi\<close> is \<^verbatim>\<open>cl{lo,hi}\<close>, with
  \<open>hi = None\<close> for no upper bound. All patterns are compiled with
  \<^verbatim>\<open>re.MULTILINE\<close>: \<open>Bol\<close> holds at the start of the text and after each
  newline, \<open>Eol\<close> at the end of the text and before each newline.
\<close>

datatype cclass = Space | Digit

datatype item = Bol | Eol | Lit char | Many cclass nat "nat option"

abbreviation Plus :: "cclass \<Rightarrow> item" where
  "Plus cl \<equiv> Many cl 1 None"

abbreviation Star :: "cclass \<Rightarrow> item" where
  "Star cl \<equiv> Many cl 0 None"

abbreviation Rep :: "nat \<Rightarrow> cclass \<Rightarrow> item" where
  "Rep n cl \<equiv> Many cl n (Some n)"

fun in_class :: "cclass \<Rightarrow> char \<Rightarrow> bool" where
  "in_class Space c = is_space c"
| "in_class Digit c = is_digit c"

text \<open>The first alternative that succeeds, in the order tried.\<close>

fun first_some :: "'a option list \<Rightarrow> 'a option" where
  "first_some [] = None"
| "first_some (None # xs) = first_some xs"
| "first_some (Some x # xs) = Some x"

text \<open>
  Whether the position after the consumed text \<open>w\<close> is at the start of a line, given
  that the position before it was (\<open>b\<close>) or was not.
\<close>

definition after :: "bool \<Rightarrow> string \<Rightarrow> bool" where
  "after b w = (if w = [] then b else last w = newline)"

text \<open>
  The numbers of characters a greedy repetition \<^verbatim>\<open>cl{lo,hi}\<close> tries at the head
  of \<open>s\<close>, in the order it tries them: the longest run first.
\<close>

definition counts :: "cclass \<Rightarrow> nat \<Rightarrow> nat option \<Rightarrow> string \<Rightarrow> nat list" where
  "counts cl lo hi s =
     (let n = length (takeWhile (in_class cl) s);
          m = (case hi of None \<Rightarrow> n | Some h \<Rightarrow> min h n)
      in rev [lo ..< Suc m])"

text \<open>
  \<open>rmatch items b s\<close> matches the items against a prefix of \<open>s\<close>, where \<open>b\<close> tells
  whether \<open>s\<close> starts at a line start. The result is the text consumed by each item,
  for the first way of matching that the backtracking matcher finds: a repetition
  first takes as many characters as it can and gives them back one at a time while the
  rest of the pattern fails.
\<close>

fun rmatch :: "item list \<Rightarrow> bool \<Rightarrow> string \<Rightarrow> string list option" where
  "rmatch [] b s = Some []"
| "rmatch (Bol # r) b s =
     (if b then map_option (Cons []) (rmatch r b s) else None)"
| "rmatch (Eol # r) b s =
     (if s = [] \<or> hd s = newline then map_option (Cons []) (rmatch r b s) else None)"
| "rmatch (Lit c # r) b s =
     (case s of
        [] \<Rightarrow> None
      | x # xs \<Rightarrow>
          if x = c then map_option (Cons [x]) (rmatch r (x = newline) xs) else None)"
| "rmatch (Many cl lo hi # r) b s =
     first_some
       (map (\<lambda>k. map_option (Cons (take k s))
                     (rmatch r (after b (take k s)) (drop k s)))
            (counts cl lo hi s))"

text \<open>
  What it means for the items to match, without the search: \<open>fits it w b t\<close> says that
  the item \<open>it\<close> may consume the text \<open>w\<close> at a position that is (\<open>b\<close>) or is not
  at a line start and is followed by \<open>w @ t\<close>; \<open>matches items ws b t\<close> says that the
  items may consume the texts \<open>ws\<close>, one each, with \<open>t\<close> left over.
\<close>

fun fits :: "item \<Rightarrow> string \<Rightarrow> bool \<Rightarrow> string \<Rightarrow> bool" where
  "fits Bol w b t = (w = [] \<and> b)"
| "fits Eol w b t = (w = [] \<and> (t = [] \<or> hd t = newline))"
| "fits (Lit c) w b t = (w = [c])"
| "fits (Many cl lo hi) w b t =
     (list_all (in_class cl) w \<and> lo \<le> length w \<and>
      (case hi of None \<Rightarrow> True | Some h \<Rightarrow> length w \<le> h))"

fun matches :: "item list \<Rightarrow> string list \<Rightarrow> bool \<Rightarrow> string \<Rightarrow> bool" where
  "matches [] [] b t = True"
| "matches (it # r) (w # ws) b t =
     (fits it w b (concat ws @ t) \<and> matches r ws (after b w) t)"
| "matches _ _ _ _ = False"

text \<open>\<open>accepts items h b t\<close>: the items may consume the text \<open>h\<close> in front of \<open>t\<close>.\<close>

definition accepts :: "item list \<Rightarrow> string \<Rightarrow> bool \<Rightarrow> string \<Rightarrow> bool" where
  "accepts p h b t = (\<exists>ws. matches p ws b t \<and> concat ws = h)"

text \<open>
  Whether offset \<open>i\<close> of \<open>s\<close> is at a line start, where \<open>b\<close> tells it for offset 0.
\<close>

definition flag_at :: "bool \<Rightarrow> string \<Rightarrow> nat \<Rightarrow> bool" where
  "flag_at b s i = (if i = 0 then b else s ! (i - 1) = newline)"

text \<open>
  A pattern is its items, each tagged with the named group it lies in. A match is the
  start offset and the texts consumed by the items.
\<close>

type_synonym pattern = "(string option \<times> item) list"

definition ungrouped :: "item list \<Rightarrow> pattern" where
  "ungrouped xs = map (Pair None) xs"

definition named :: "string \<Rightarrow> item list \<Rightarrow> pattern" where
  "named g xs = map (Pair (Some g)) xs"

type_synonym rmatch_result = "nat \<times> string list"

definition m_start :: "rmatch_result \<Rightarrow> nat" where
  "m_start m = fst m"

definition m_end :: "rmatch_result \<Rightarrow> nat" where
  "m_end m = fst m + length (concat (snd m))"

definition group :: "pattern \<Rightarrow> rmatch_result \<Rightarrow> string \<Rightarrow> string" where
  "group p m g = concat (map snd (filter (\<lambda>(t, w). fst t = Some g) (zip p (snd m))))"

text \<open>
  \<open>search_at items b s\<close> scans the start positions of \<open>s\<close> from left to right and returns
  the first match, with its offset in \<open>s\<close>.
\<close>

fun search_at :: "item list \<Rightarrow> bool \<Rightarrow> string \<Rightarrow> rmatch_result option" where
  "search_at p b [] = map_option (Pair 0) (rmatch p b [])"
| "search_at p b (c # cs) =
     (case rmatch p b (c # cs) of
        Some ws \<Rightarrow> Some (0, ws)
      | None \<Rightarrow> map_option (\<lambda>(i, ws). (Suc i, ws)) (search_at p (c = newline) cs))"

text \<open>\<^verbatim>\<open>re.search(pattern, s, re.MULTILINE)\<close>.\<close>

definition re_search :: "pattern \<Rightarrow> string \<Rightarrow> rmatch_result option" where
  "re_search p s = search_at (map snd p) True s"

text \<open>
  What a match consumes is a prefix of the text it was matched against, so a search
  never reports an end beyond the text.
\<close>

lemma set_counts:
  "k \<in> set (counts cl lo hi s) \<longleftrightarrow>
     lo \<le> k \<and> k \<le> length (takeWhile (in_class cl) s) \<and> (\<forall>h. hi = Some h \<longrightarrow> k \<le> h)"
proof (cases hi)
  case None
  then show ?thesis
    by (simp only: counts_def Let_def set_rev set_upt option.simps) auto
next
  case (Some h)
  then show ?thesis
    by (simp only: counts_def Let_def set_rev set_upt option.simps) auto
qed

lemma first_some_Cons:
  "first_some (x # xs) = (case x of None \<Rightarrow> first_some xs | Some y \<Rightarrow> Some y)"
  by (cases x) simp_all

lemma first_some_mapD:
  "first_some (map f ks) = Some y \<Longrightarrow> \<exists>k \<in> set ks. f k = Some y"
  by (induction ks) (auto simp: first_some_Cons split: option.splits)

lemma rmatch_ManyD:
  assumes "rmatch (Many cl lo hi # r) b s = Some ws"
  obtains k vs where "k \<in> set (counts cl lo hi s)"
    and "rmatch r (after b (take k s)) (drop k s) = Some vs"
    and "ws = take k s # vs"
proof -
  from assms obtain k where k: "k \<in> set (counts cl lo hi s)"
    and "map_option (Cons (take k s)) (rmatch r (after b (take k s)) (drop k s)) = Some ws"
    by (auto dest: first_some_mapD)
  then obtain vs where "rmatch r (after b (take k s)) (drop k s) = Some vs"
    "ws = take k s # vs"
    by auto
  with k that show thesis by blast
qed

lemma rmatch_prefix:
  "rmatch p b s = Some ws \<Longrightarrow> \<exists>t. s = concat ws @ t"
proof (induction p arbitrary: b s ws)
  case Nil
  then show ?case by simp
next
  case (Cons it r)
  show ?case
  proof (cases it)
    case Bol
    with Cons.prems obtain vs where "rmatch r b s = Some vs" "ws = [] # vs"
      by (auto split: if_splits)
    with Cons.IH [of b s vs] show ?thesis by simp
  next
    case Eol
    with Cons.prems obtain vs where "rmatch r b s = Some vs" "ws = [] # vs"
      by (auto split: if_splits)
    with Cons.IH [of b s vs] show ?thesis by simp
  next
    case (Lit c)
    with Cons.prems obtain xs vs where
      "s = c # xs" "rmatch r (c = newline) xs = Some vs" "ws = [c] # vs"
      by (auto split: if_splits list.splits)
    with Cons.IH [of "c = newline" xs vs] show ?thesis by auto
  next
    case (Many cl lo hi)
    with Cons.prems have "rmatch (Many cl lo hi # r) b s = Some ws" by simp
    then obtain k vs where
      k: "rmatch r (after b (take k s)) (drop k s) = Some vs" "ws = take k s # vs"
      by (rule rmatch_ManyD)
    from Cons.IH [OF k(1)] obtain t where "drop k s = concat vs @ t" ..
    then have "s = take k s @ concat vs @ t"
      by (metis append_take_drop_id)
    with k(2) show ?thesis by auto
  qed
qed

lemma search_at_bound:
  "search_at p b s = Some (i, ws) \<Longrightarrow> i + length (concat ws) \<le> length s"
proof (induction s arbitrary: b i ws)
  case Nil
  then show ?case
    by (auto dest!: rmatch_prefix)
next
  case (Cons c cs)
  show ?case
  proof (cases "rmatch p b (c # cs)")
    case None
    with Cons.prems obtain j where "search_at p (c = newline) cs = Some (j, ws)" "i = Suc j"
      by auto
    with Cons.IH show ?thesis by fastforce
  next
    case (Some vs)
    with Cons.prems have "i = 0" "ws = vs" by auto
    moreover from rmatch_prefix [OF Some] obtain t where "c # cs = concat vs @ t" ..
    then have "length (c # cs) = length (concat vs) + length t"
      by (metis length_append)
    ultimately show ?thesis by simp
  qed
qed

text \<open>
  \<open>find_from items b s off\<close> lists the successive non-overlapping matches in \<open>s\<close>, a
  suffix of the text that starts at offset \<open>off\<close>; each search resumes where the match
  before it ended. The rule of \<^verbatim>\<open>finditer\<close> after an empty match is not modelled:
  the iteration stops there. The source iterates over \<open>HEADING_RE\<close> only, which
  does not match the empty text (\<open>heading_match_nonempty\<close> below).
\<close>

function find_from :: "item list \<Rightarrow> bool \<Rightarrow> string \<Rightarrow> nat \<Rightarrow> rmatch_result list" where
  "find_from p b s off =
     (case search_at p b s of
        None \<Rightarrow> []
      | Some (i, ws) \<Rightarrow>
          (let e = i + length (concat ws) in
           (off + i, ws) #
             (if e = 0 then []
              else find_from p (s ! (e - 1) = newline) (drop e s) (off + e))))"
  by pat_completeness auto

termination
proof (relation "measure (\<lambda>(p, b, s, off). length s)", goal_cases)
  case 1
  show ?case by simp
next
  case (2 p b s off m i ws e)
  then have "e \<le> length s" "0 < e"
    using search_at_bound [of p b s i ws] by auto
  then show ?case by simp
qed

declare find_from.simps [simp del]

text \<open>\<^verbatim>\<open>pattern.finditer(s)\<close>.\<close>

definition finditer :: "pattern \<Rightarrow> string \<Rightarrow> rmatch_result list" where
  "finditer p s = find_from (map snd p) True s 0"

section \<open>The changelog script\<close>

text \<open>
  An exception that leaves a function is the \<open>Inl\<close> of its result. The file system is a
  map from paths to the text that \<^verbatim>\<open>path.read_text(encoding="utf-8")\<close> returns for
  the file (decoded, line ends translated); \<^verbatim>\<open>read_text\<close> fails on a path that
  holds no readable text. The file does not change during a call, so the two reads of
  \<^verbatim>\<open>validate_changelog\<close> see the same text.
\<close>

datatype error = OSError | ValueError string

type_synonym path = string

type_synonym filesystem = "path \<Rightarrow> string option"

definition read_text :: "filesystem \<Rightarrow> path \<Rightarrow> error + string" where
  "read_text fs p = (case fs p of None \<Rightarrow> Inl OSError | Some content \<Rightarrow> Inr content)"

definition HEADING_RE :: pattern where
  "HEADING_RE =
     ungrouped [Bol, Lit (CHR ''#''), Lit (CHR ''#''), Plus Space] @
     named ''version'' [Plus Digit, Lit (CHR ''.''), Plus Digit, Lit (CHR ''.''), Plus Digit] @
     ungrouped [Plus Space, Lit (CHR ''-''), Plus Space] @
     named ''date'' [Rep 4 Digit, Lit (CHR ''-''), Rep 2 Digit, Lit (CHR ''-''), Rep 2 Digit] @
     ungrouped [Star Space, Eol]"

text \<open>
  \<^verbatim>\<open>int(s)\<close> on a nonempty text of ASCII digits is its decimal value, of any size
  (the limit some interpreters put on the number of digits of a numeral is not
  modelled). Python's \<^verbatim>\<open>int\<close> also reads a sign, blanks around the number and
  single underscores between digits; those spellings are left out (the model raises),
  and no version that \<open>HEADING_RE\<close> captures has them.
\<close>

definition digit_value :: "char \<Rightarrow> nat" where
  "digit_value c = of_char c - 48"

fun decimal :: "nat \<Rightarrow> string \<Rightarrow> nat" where
  "decimal a [] = a"
| "decimal a (c # cs) = decimal (10 * a + digit_value c) cs"

definition py_int :: "string \<Rightarrow> error + int" where
  "py_int s =
     (if s \<noteq> [] \<and> list_all is_digit s then Inr (int (decimal 0 s))
      else Inl (ValueError ''invalid literal for int() with base 10''))"

definition parse_semver :: "string \<Rightarrow> error + (int \<times> int \<times> int)" where
  "parse_semver version =
     (case split_on (CHR ''.'') version of
        [major, minor, patch] \<Rightarrow>
          (case py_int major of
             Inl e \<Rightarrow> Inl e
           | Inr a \<Rightarrow>
               (case py_int minor of
                  Inl e \<Rightarrow> Inl e
                | Inr b \<Rightarrow>
                    (case py_int patch of
                       Inl e \<Rightarrow> Inl e
                     | Inr c \<Rightarrow> Inr (a, b, c))))
      | _ \<Rightarrow> Inl (ValueError ''wrong number of values to unpack''))"

text \<open>
  \<^verbatim>\<open>datetime.date.fromisoformat\<close> on a text of the shape \<^verbatim>\<open>YYYY-MM-DD\<close>: the
  date when year, month and day name a day of the proleptic Gregorian calendar in the
  years 1 to 9999, a \<^verbatim>\<open>ValueError\<close> otherwise. Other shapes raise in the model
  (newer interpreters read some of them); \<open>HEADING_RE\<close> captures this shape only.
\<close>

definition is_leap :: "int \<Rightarrow> bool" where
  "is_leap y = (y mod 4 = 0 \<and> (y mod 100 \<noteq> 0 \<or> y mod 400 = 0))"

definition days_in_month :: "int \<Rightarrow> int \<Rightarrow> int" where
  "days_in_month y m =
     (if m = 2 then (if is_leap y then 29 else 28)
      else if m = 4 \<or> m = 6 \<or> m = 9 \<or> m = 11 then 30
      else 31)"

definition iso_shape :: "string \<Rightarrow> bool" where
  "iso_shape s =
     (length s = 10 \<and> list_all is_digit (slice s 0 4) \<and> slice s 4 5 = ''-'' \<and>
      list_all is_digit (slice s 5 7) \<and> slice s 7 8 = ''-'' \<and>
      list_all is_digit (slice s 8 10))"

definition date_fromisoformat :: "string \<Rightarrow> error + (int \<times> int \<times> int)" where
  "date_fromisoformat s =
     (if iso_shape s then
        (let y = int (decimal 0 (slice s 0 4));
             m = int (decimal 0 (slice s 5 7));
             d = int (decimal 0 (slice s 8 10))
         in if 1 \<le> y \<and> y \<le> 9999 \<and> 1 \<le> m \<and> m \<le> 12 \<and> 1 \<le> d \<and> d \<le> days_in_month y m
            then Inr (y, m, d)
            else Inl (ValueError ''date value out of range''))
      else Inl (ValueError ''Invalid isoformat string''))"

definition load_headings :: "filesystem \<Rightarrow> path \<Rightarrow> error + (string \<times> string) list" where
  "load_headings fs p =
     (case read_text fs p of
        Inl e \<Rightarrow> Inl e
      | Inr content \<Rightarrow>
          Inr (map (\<lambda>m. (group HEADING_RE m ''version'', group HEADING_RE m ''date''))
                 (finditer HEADING_RE content)))"

text \<open>
  The loop of \<^verbatim>\<open>validate_changelog\<close> over the headings, with its two variables.
  \<open>Inr (Some msg)\<close> is the early \<^verbatim>\<open>return False, msg\<close>; \<open>Inr None\<close> is the loop
  running to its end.
\<close>

fun validate_loop ::
  "string set \<Rightarrow> (int \<times> int \<times> int) option \<Rightarrow> (string \<times> string) list \<Rightarrow>
     error + string option" where
  "validate_loop seen previous_version [] = Inr None"
| "validate_loop seen previous_version ((version, date_value) # rest) =
     (if version \<in> seen then
        Inr (Some (''Duplicate changelog version heading found: '' @ version))
      else
        (case date_fromisoformat date_value of
           Inl (ValueError _) \<Rightarrow>
             Inr (Some (''Invalid changelog date for '' @ version @ '': '' @ date_value))
         | Inl e \<Rightarrow> Inl e
         | Inr _ \<Rightarrow>
             (case parse_semver version of
                Inl e \<Rightarrow> Inl e
              | Inr semver \<Rightarrow>
                  if (case previous_version of
                        None \<Rightarrow> False
                      | Some previous \<Rightarrow> semver \<ge> previous)
                  then Inr (Some ''Changelog versions must be strictly descending (newest first).'')
                  else validate_loop (insert version seen) (Some semver) rest)))"

definition validate_changelog :: "filesystem \<Rightarrow> path \<Rightarrow> error + (bool \<times> string)" where
  "validate_changelog fs p =
     (case read_text fs p of
        Inl e \<Rightarrow> Inl e
      | Inr content \<Rightarrow>
          if \<not> startswith content ''# Changelog'' then
            Inr (False, ''CHANGELOG.md must start with '# Changelog'.'')
          else
            (case load_headings fs p of
               Inl e \<Rightarrow> Inl e
             | Inr [] \<Rightarrow>
                 Inr (False, ''No release headings found. Expected: '## X.Y.Z - YYYY-MM-DD'.'')
             | Inr (first # others) \<Rightarrow>
                 (case validate_loop {} None (first # others) of
                    Inl e \<Rightarrow> Inl e
                  | Inr (Some msg) \<Rightarrow> Inr (False, msg)
                  | Inr None \<Rightarrow> Inr (True, fst first))))"

definition latest_version :: "filesystem \<Rightarrow> path \<Rightarrow> error + string" where
  "latest_version fs p =
     (case validate_changelog fs p of
        Inl e \<Rightarrow> Inl e
      | Inr (ok, info) \<Rightarrow> if \<not> ok then Inl (ValueError info) else Inr info)"

text \<open>
  The two patterns of \<^verbatim>\<open>extract_release_notes\<close>: the heading of one version, with
  \<^verbatim>\<open>re.escape(version)\<close> as the literal characters of the version, and the heading
  of any version.
\<close>

definition date_items :: "item list" where
  "date_items = [Rep 4 Digit, Lit (CHR ''-''), Rep 2 Digit, Lit (CHR ''-''), Rep 2 Digit]"

definition version_pattern :: "string \<Rightarrow> pattern" where
  "version_pattern version =
     ungrouped ([Bol, Lit (CHR ''#''), Lit (CHR ''#''), Plus Space] @ map Lit version @
                [Plus Space, Lit (CHR ''-''), Plus Space] @ date_items @ [Star Space, Eol])"

definition any_heading_pattern :: pattern where
  "any_heading_pattern =
     ungrouped ([Bol, Lit (CHR ''#''), Lit (CHR ''#''), Plus Space,
                 Plus Digit, Lit (CHR ''.''), Plus Digit, Lit (CHR ''.''), Plus Digit,
                 Plus Space, Lit (CHR ''-''), Plus Space] @ date_items @ [Star Space, Eol])"

definition extract_release_notes :: "filesystem \<Rightarrow> path \<Rightarrow> string \<Rightarrow> error + string" where
  "extract_release_notes fs p version =
     (case read_text fs p of
        Inl e \<Rightarrow> Inl e
      | Inr content \<Rightarrow>
          (case re_search (version_pattern version) content of
             None \<Rightarrow> Inl (ValueError (''No changelog entry for '' @ version))
           | Some match \<Rightarrow>
               (let start = m_end match;
                    next_match = re_search any_heading_pattern (drop start content);
                    end_pos = (case next_match of
                                 Some nm \<Rightarrow> start + m_start nm
                               | None \<Rightarrow> length content);
                    notes = strip (slice content start end_pos)
                in Inr (if notes = [] then ''Release v'' @ version else notes))))"

section \<open>Headings of a document, as the specification describes them\<close>

text \<open>
  The words of the specification, to compare the code with. A heading for a version is
  the text \<^verbatim>\<open>##\<close>, blanks, the version, blanks, a hyphen, blanks, a date of the
  shape \<^verbatim>\<open>YYYY-MM-DD\<close> and optional blanks, from a line start to a line end. Blanks
  are the characters of \<^verbatim>\<open>\s\<close>, the line break among them.
\<close>

definition blanks :: "string \<Rightarrow> bool" where
  "blanks w = (w \<noteq> [] \<and> list_all is_space w)"

definition digits :: "string \<Rightarrow> bool" where
  "digits w = (w \<noteq> [] \<and> list_all is_digit w)"

definition version_shape :: "string \<Rightarrow> bool" where
  "version_shape v = (\<exists>a b c. v = a @ ''.'' @ b @ ''.'' @ c \<and> digits a \<and> digits b \<and> digits c)"

definition heading_text :: "string \<Rightarrow> string \<Rightarrow> bool" where
  "heading_text version h =
     (\<exists>w1 w2 w3 d w4.
        h = ''##'' @ w1 @ version @ w2 @ ''-'' @ w3 @ d @ w4 \<and>
        blanks w1 \<and> blanks w2 \<and> blanks w3 \<and> iso_shape d \<and> list_all is_space w4)"

definition line_start :: "string \<Rightarrow> nat \<Rightarrow> bool" where
  "line_start content i = (i = 0 \<or> content ! (i - 1) = newline)"

definition line_end :: "string \<Rightarrow> bool" where
  "line_end t = (t = [] \<or> hd t = newline)"

text \<open>A heading for \<open>version\<close> starts at offset \<open>i\<close> of the document.\<close>

definition heading_at :: "string \<Rightarrow> string \<Rightarrow> nat \<Rightarrow> bool" where
  "heading_at version content i =
     (i \<le> length content \<and> line_start content i \<and>
      (\<exists>h t. drop i content = h @ t \<and> heading_text version h \<and> line_end t))"

text \<open>A heading for some version starts at offset \<open>i\<close> of the document.\<close>

definition any_heading_at :: "string \<Rightarrow> nat \<Rightarrow> bool" where
  "any_heading_at content i = (\<exists>version. version_shape version \<and> heading_at version content i)"

section \<open>The per-heading checks, as the specification describes them\<close>

text \<open>
  The specification gives each heading of the listing one verdict, from the headings
  above it: a repeated version, else a date that is no calendar date, else a version
  that is not below the version of the heading just above, else a pass.
\<close>

definition valid_date :: "string \<Rightarrow> bool" where
  "valid_date d = (case date_fromisoformat d of Inr _ \<Rightarrow> True | Inl _ \<Rightarrow> False)"

definition not_below :: "string \<Rightarrow> string \<Rightarrow> bool" where
  "not_below v u =
     (case (parse_semver v, parse_semver u) of
        (Inr a, Inr b) \<Rightarrow> a \<ge> b
      | _ \<Rightarrow> False)"

datatype verdict = Passes | Duplicate string | InvalidDate string string | NotDescending

definition heading_verdict :: "(string \<times> string) list \<Rightarrow> nat \<Rightarrow> verdict" where
  "heading_verdict hs i =
     (if fst (hs ! i) \<in> set (map fst (take i hs)) then Duplicate (fst (hs ! i))
      else if \<not> valid_date (snd (hs ! i)) then InvalidDate (fst (hs ! i)) (snd (hs ! i))
      else if 0 < i \<and> not_below (fst (hs ! i)) (fst (hs ! (i - 1))) then NotDescending
      else Passes)"

definition title_diagnostic :: string where
  "title_diagnostic = ''CHANGELOG.md must start with '# Changelog'.''"

definition no_headings_diagnostic :: string where
  "no_headings_diagnostic = ''No release headings found. Expected: '## X.Y.Z - YYYY-MM-DD'.''"

definition ordering_diagnostic :: string where
  "ordering_diagnostic = ''Changelog versions must be strictly descending (newest first).''"

fun diagnostic :: "verdict \<Rightarrow> string" where
  "diagnostic Passes = []"
| "diagnostic (Duplicate v) = ''Duplicate changelog version heading found: '' @ v"
| "diagnostic (InvalidDate v d) = ''Invalid changelog date for '' @ v @ '': '' @ d"
| "diagnostic NotDescending = ordering_diagnostic"

text \<open>
  The value of \<^verbatim>\<open>previous_version\<close> when the loop reaches heading \<open>n\<close> of the
  listing.
\<close>

definition previous_before :: "(string \<times> string) list \<Rightarrow> nat \<Rightarrow> (int \<times> int \<times> int) option" where
  "previous_before hs n =
     (if n = 0 then None
      else (case parse_semver (fst (hs ! (n - 1))) of Inr t \<Rightarrow> Some t | Inl _ \<Rightarrow> None))"

text \<open>The placeholder of \<^verbatim>\<open>extract_release_notes\<close> for an empty body.\<close>

definition notes_or_placeholder :: "string \<Rightarrow> string \<Rightarrow> string" where
  "notes_or_placeholder version body =
     (if strip body = [] then ''Release v'' @ version else strip body)"

section \<open>Example documents\<close>

text \<open>A file system that holds one file.\<close>

definition single_file :: "path \<Rightarrow> string \<Rightarrow> filesystem" where
  "single_file p content = (\<lambda>q. if q = p then Some content else None)"

text \<open>The example document of the specification.\<close>

definition two_releases :: string where
  "two_releases =
     ''# Changelog\<newline>\<newline>## 2.0.0 - 2024-06-01\<newline>Breaking change.\<newline>\<newline>'' @
     ''## 1.0.0 - 2024-01-01\<newline>Initial release.\<newline>''"

text \<open>A document with a heading but no title.\<close>

definition untitled :: string where
  "untitled = ''## 1.0.0 - 2024-01-01\<newline>Initial release.\<newline>''"

text \<open>The second heading repeats the version of the first and carries no calendar date.\<close>

definition repeated_version :: string where
  "repeated_version =
     ''# Changelog\<newline>\<newline>## 1.0.0 - 2024-01-01\<newline>First.\<newline>\<newline>'' @
     ''## 1.0.0 - 2024-02-30\<newline>Again.\<newline>''"

text \<open>The second heading is above the first in version and carries no calendar date.\<close>

definition ascending_bad_date :: string where
  "ascending_bad_date =
     ''# Changelog\<newline>\<newline>## 1.0.0 - 2024-01-01\<newline>First.\<newline>\<newline>'' @
     ''## 2.0.0 - 2024-02-30\<newline>Second.\<newline>''"

text \<open>Ascending versions, then a heading with no calendar date.\<close>

definition ascending_then_bad_date :: string where
  "ascending_then_bad_date =
     ''# Changelog\<newline>\<newline>## 1.0.0 - 2024-01-01\<newline>First.\<newline>\<newline>'' @
     ''## 2.0.0 - 2024-06-01\<newline>Second.\<newline>\<newline>'' @
     ''## 0.5.0 - 2024-02-30\<newline>Third.\<newline>''"

text \<open>No title, and a heading with no calendar date.\<close>

definition untitled_bad_date :: string where
  "untitled_bad_date = ''## 1.0.0 - 2024-02-30\<newline>Initial release.\<newline>''"

text \<open>Descending versions, the second heading with no calendar date.\<close>

definition descending_bad_date :: string where
  "descending_bad_date =
     ''# Changelog\<newline>\<newline>## 2.0.0 - 2024-06-01\<newline>Second.\<newline>\<newline>'' @
     ''## 1.0.0 - 2024-02-30\<newline>First.\<newline>''"

text \<open>Version 10.0.0 above version 2.0.0.\<close>

definition ten_above_two :: string where
  "ten_above_two =
     ''# Changelog\<newline>\<newline>## 10.0.0 - 2024-06-01\<newline>Big.\<newline>\<newline>'' @
     ''## 2.0.0 - 2024-01-01\<newline>Small.\<newline>''"

text \<open>The example of the specification with its two sections swapped.\<close>

definition ascending :: string where
  "ascending =
     ''# Changelog\<newline>\<newline>## 1.0.0 - 2024-01-01\<newline>Initial release.\<newline>\<newline>'' @
     ''## 2.0.0 - 2024-06-01\<newline>Breaking change.\<newline>''"

text \<open>The same version twice, both dates calendar dates.\<close>

definition same_version_twice :: string where
  "same_version_twice =
     ''# Changelog\<newline>\<newline>## 1.0.0 - 2024-01-01\<newline>First.\<newline>\<newline>'' @
     ''## 1.0.0 - 2024-01-01\<newline>Again.\<newline>''"

text \<open>Ascending versions and no title.\<close>

definition untitled_ascending :: string where
  "untitled_ascending =
     ''## 1.0.0 - 2024-01-01\<newline>Initial release.\<newline>\<newline>'' @
     ''## 2.0.0 - 2024-06-01\<newline>Breaking change.\<newline>''"

text \<open>Lines that look like headings and are none, and nothing else below the title.\<close>

definition near_misses_only :: string where
  "near_misses_only =
     ''# Changelog\<newline>\<newline>## 1.0 - 2024-01-01\<newline>## 1.0.0 - 2024-1-1\<newline>'' @
     ''## Unreleased\<newline>''"

text \<open>The example of the specification with such lines in the notes of version 2.0.0.\<close>

definition near_misses_inside :: string where
  "near_misses_inside =
     ''# Changelog\<newline>\<newline>## 2.0.0 - 2024-06-01\<newline>Breaking change.\<newline>'' @
     ''## 1.0 - 2024-01-01\<newline>## 1.0.0 - 2024-1-1\<newline>## Unreleased\<newline>More.\<newline>\<newline>'' @
     ''## 1.0.0 - 2024-01-01\<newline>Initial release.\<newline>''"

text \<open>Three lines that look like headings and are none.\<close>

definition near_miss_lines :: "string list" where
  "near_miss_lines = [''## 1.0 - 2024-01-01'', ''## 1.0.0 - 2024-1-1'', ''## Unreleased'']"

section \<open>The matcher finds a match exactly when one exists\<close>

lemma takeWhile_run:
  "k \<le> length (takeWhile P s) \<longleftrightarrow> k \<le> length s \<and> list_all P (take k s)"
proof (induction s arbitrary: k)
  case Nil
  then show ?case by simp
next
  case (Cons x xs)
  then show ?case by (cases k) auto
qed

lemma rmatch_sound:
  "rmatch p b s = Some ws \<Longrightarrow> \<exists>t. s = concat ws @ t \<and> matches p ws b t"
proof (induction p arbitrary: b s ws)
  case Nil
  then show ?case by simp
next
  case (Cons it r)
  show ?case
  proof (cases it)
    case Bol
    with Cons.prems obtain vs where "rmatch r b s = Some vs" "ws = [] # vs" b
      by (auto split: if_splits)
    with Cons.IH [of b s vs] Bol show ?thesis by (auto simp: after_def)
  next
    case Eol
    with Cons.prems obtain vs where "rmatch r b s = Some vs" "ws = [] # vs"
      "s = [] \<or> hd s = newline"
      by (auto split: if_splits)
    with Cons.IH [of b s vs] Eol show ?thesis by (auto simp: after_def)
  next
    case (Lit c)
    with Cons.prems obtain xs vs where
      "s = c # xs" "rmatch r (c = newline) xs = Some vs" "ws = [c] # vs"
      by (auto split: if_splits list.splits)
    with Cons.IH [of "c = newline" xs vs] Lit show ?thesis by (auto simp: after_def)
  next
    case (Many cl lo hi)
    with Cons.prems have "rmatch (Many cl lo hi # r) b s = Some ws" by simp
    then obtain k vs where
      k: "k \<in> set (counts cl lo hi s)"
        "rmatch r (after b (take k s)) (drop k s) = Some vs" "ws = take k s # vs"
      by (rule rmatch_ManyD)
    from Cons.IH [OF k(2)] obtain t where
      t: "drop k s = concat vs @ t" "matches r vs (after b (take k s)) t" by blast
    from t(1) have "s = take k s @ concat vs @ t"
      by (metis append_take_drop_id)
    moreover from k(1) have "fits (Many cl lo hi) (take k s) b (concat vs @ t)"
      by (auto simp: set_counts takeWhile_run min_absorb2 split: option.splits)
    ultimately show ?thesis using k(3) t(2) Many by auto
  qed
qed

lemma first_some_map_complete:
  "k \<in> set ks \<Longrightarrow> f k = Some y \<Longrightarrow> \<exists>z. first_some (map f ks) = Some z"
  by (induction ks) (auto simp: first_some_Cons split: option.splits)

lemma rmatch_complete:
  "matches p ws b t \<Longrightarrow> \<exists>vs. rmatch p b (concat ws @ t) = Some vs"
proof (induction p arbitrary: b ws)
  case Nil
  then show ?case by simp
next
  case (Cons it r)
  from Cons.prems obtain w ws' where ws: "ws = w # ws'"
    by (cases ws) auto
  with Cons.prems have fit: "fits it w b (concat ws' @ t)"
    and rest: "matches r ws' (after b w) t" by auto
  from Cons.IH [OF rest] obtain vs where vs: "rmatch r (after b w) (concat ws' @ t) = Some vs" ..
  show ?case
  proof (cases it)
    case Bol
    with fit vs ws show ?thesis by (auto simp: after_def)
  next
    case Eol
    with fit vs ws show ?thesis by (auto simp: after_def)
  next
    case (Lit c)
    with fit vs ws show ?thesis by (auto simp: after_def)
  next
    case (Many cl lo hi)
    let ?s = "concat ws @ t"
    let ?f = "\<lambda>k. map_option (Cons (take k ?s)) (rmatch r (after b (take k ?s)) (drop k ?s))"
    from fit Many have "length w \<in> set (counts cl lo hi ?s)"
      by (auto simp: set_counts takeWhile_run ws split: option.splits)
    moreover from vs have "?f (length w) = Some (w # vs)"
      by (simp add: ws)
    ultimately have "\<exists>z. first_some (map ?f (counts cl lo hi ?s)) = Some z"
      by (rule first_some_map_complete)
    with Many show ?thesis by simp
  qed
qed

lemma after_append: "after (after b u) v = after b (u @ v)"
  by (simp add: after_def)

lemma after_Nil [simp]: "after b [] = b"
  by (simp add: after_def)

lemma matches_Nil: "matches [] ws b t \<longleftrightarrow> ws = []"
  by (cases ws) auto

lemma matches_Cons:
  "matches (it # r) ws b t \<longleftrightarrow>
     (\<exists>w ws'. ws = w # ws' \<and> fits it w b (concat ws' @ t) \<and> matches r ws' (after b w) t)"
  by (cases ws) auto

lemma accepts_Nil: "accepts [] h b t \<longleftrightarrow> h = []"
  by (auto simp: accepts_def matches_Nil)

lemma accepts_Cons:
  "accepts (it # r) h b t \<longleftrightarrow>
     (\<exists>w h'. h = w @ h' \<and> fits it w b (h' @ t) \<and> accepts r h' (after b w) t)"
proof
  assume "accepts (it # r) h b t"
  then obtain w ws' where "fits it w b (concat ws' @ t)" "matches r ws' (after b w) t"
    "h = w @ concat ws'"
    by (auto simp: accepts_def matches_Cons)
  then show "\<exists>w h'. h = w @ h' \<and> fits it w b (h' @ t) \<and> accepts r h' (after b w) t"
    unfolding accepts_def by blast
next
  assume "\<exists>w h'. h = w @ h' \<and> fits it w b (h' @ t) \<and> accepts r h' (after b w) t"
  then obtain w ws' where "fits it w b (concat ws' @ t)" "matches r ws' (after b w) t"
    "h = w @ concat ws'"
    unfolding accepts_def by blast
  then have "matches (it # r) (w # ws') b t \<and> concat (w # ws') = h"
    by simp
  then show "accepts (it # r) h b t"
    unfolding accepts_def by blast
qed

lemma accepts_append:
  "accepts (p @ q) h b t \<longleftrightarrow>
     (\<exists>h1 h2. h = h1 @ h2 \<and> accepts p h1 b (h2 @ t) \<and> accepts q h2 (after b h1) t)"
proof (induction p arbitrary: h b)
  case Nil
  then show ?case by (simp add: accepts_Nil)
next
  case (Cons it p)
  show ?case
  proof
    assume "accepts ((it # p) @ q) h b t"
    then obtain w h' where h: "h = w @ h'" and fit: "fits it w b (h' @ t)"
      and acc: "accepts (p @ q) h' (after b w) t"
      by (auto simp: accepts_Cons)
    from acc Cons.IH obtain h1 h2 where h': "h' = h1 @ h2"
      and p: "accepts p h1 (after b w) (h2 @ t)" and q: "accepts q h2 (after (after b w) h1) t"
      by blast
    from fit h' p have "accepts (it # p) (w @ h1) b (h2 @ t)"
      by (auto simp: accepts_Cons)
    moreover from q have "accepts q h2 (after b (w @ h1)) t"
      by (simp add: after_append)
    ultimately show "\<exists>h1 h2. h = h1 @ h2 \<and> accepts (it # p) h1 b (h2 @ t) \<and>
        accepts q h2 (after b h1) t"
      using h h' by (metis append.assoc)
  next
    assume "\<exists>h1 h2. h = h1 @ h2 \<and> accepts (it # p) h1 b (h2 @ t) \<and>
        accepts q h2 (after b h1) t"
    then obtain h1 h2 where h: "h = h1 @ h2" and p: "accepts (it # p) h1 b (h2 @ t)"
      and q: "accepts q h2 (after b h1) t" by blast
    from p obtain w h' where h1: "h1 = w @ h'" and fit: "fits it w b (h' @ h2 @ t)"
      and acc: "accepts p h' (after b w) (h2 @ t)"
      by (auto simp: accepts_Cons)
    from q h1 have "accepts q h2 (after (after b w) h') t"
      by (simp add: after_append)
    with acc Cons.IH have "accepts (p @ q) (h' @ h2) (after b w) t" by blast
    with fit have "accepts (it # p @ q) (w @ h' @ h2) b t"
      unfolding accepts_Cons [of it "p @ q"] by (metis append.assoc)
    then show "accepts ((it # p) @ q) h b t"
      using h h1 by simp
  qed
qed

lemma accepts_Lits: "accepts (map Lit v) h b t \<longleftrightarrow> h = v"
  by (induction v arbitrary: h b) (auto simp: accepts_Nil accepts_Cons)

lemma rmatch_accepts:
  "(\<exists>ws. rmatch p b s = Some ws \<and> concat ws = h) \<Longrightarrow> \<exists>t. s = h @ t \<and> accepts p h b t"
  by (auto simp: accepts_def dest!: rmatch_sound)

lemma accepts_rmatch:
  "accepts p h b t \<Longrightarrow> \<exists>ws. rmatch p b (h @ t) = Some ws"
  by (auto simp: accepts_def dest!: rmatch_complete)

section \<open>What the heading patterns accept\<close>

lemma map_snd_ungrouped [simp]: "map snd (ungrouped xs) = xs"
  by (simp add: ungrouped_def comp_def)

lemma map_snd_named [simp]: "map snd (named g xs) = xs"
  by (simp add: named_def comp_def)

lemma in_class_Space [simp]: "in_class Space = is_space"
  by (rule ext) simp

lemma in_class_Digit [simp]: "in_class Digit = is_digit"
  by (rule ext) simp

lemma Suc0_le_length [simp]: "Suc 0 \<le> length w \<longleftrightarrow> w \<noteq> []"
  by (cases w) auto

lemma accepts_single: "accepts [it] h b t \<longleftrightarrow> fits it h b t"
  by (auto simp: accepts_Cons accepts_Nil)

lemma accepts_open:
  "accepts [Bol, Lit (CHR ''#''), Lit (CHR ''#''), Plus Space] h b t \<longleftrightarrow>
     b \<and> (\<exists>w1. h = ''##'' @ w1 \<and> blanks w1)"
  by (auto simp: accepts_Cons accepts_Nil blanks_def)

lemma accepts_hyphen:
  "accepts [Plus Space, Lit (CHR ''-''), Plus Space] h b t \<longleftrightarrow>
     (\<exists>w2 w3. h = w2 @ ''-'' @ w3 \<and> blanks w2 \<and> blanks w3)"
  by (auto simp: accepts_Cons accepts_Nil blanks_def)

lemma accepts_close:
  "accepts [Star Space, Eol] h b t \<longleftrightarrow> list_all is_space h \<and> line_end t"
  by (auto simp: accepts_Cons accepts_Nil line_end_def)

lemma accepts_version:
  "accepts [Plus Digit, Lit (CHR ''.''), Plus Digit, Lit (CHR ''.''), Plus Digit] v b t \<longleftrightarrow>
     version_shape v"
proof
  assume "accepts [Plus Digit, Lit (CHR ''.''), Plus Digit, Lit (CHR ''.''), Plus Digit] v b t"
  then obtain x y z where "v = x @ ''.'' @ y @ ''.'' @ z" "digits x" "digits y" "digits z"
    by (auto simp: accepts_Cons accepts_Nil digits_def)
  then show "version_shape v"
    unfolding version_shape_def by blast
next
  assume "version_shape v"
  then obtain x y z where v: "v = x @ ''.'' @ y @ ''.'' @ z" and
    *: "digits x" "digits y" "digits z"
    unfolding version_shape_def by blast
  have "accepts [Plus Digit] z (after (after (after (after b x) ''.'') y) ''.'') t"
    using * by (simp add: accepts_single digits_def)
  then have "accepts [Lit (CHR ''.''), Plus Digit] (''.'' @ z) (after (after (after b x) ''.'') y) t"
    unfolding accepts_Cons [of "Lit _"]
    by (intro exI [of _ "''.''"] exI [of _ z]) simp
  then have "accepts [Plus Digit, Lit (CHR ''.''), Plus Digit] (y @ ''.'' @ z)
      (after (after b x) ''.'') t"
    unfolding accepts_Cons [of "Many _ _ _" "[_, _]"] using *
    by (intro exI [of _ y] exI [of _ "''.'' @ z"]) (simp add: digits_def)
  then have "accepts [Lit (CHR ''.''), Plus Digit, Lit (CHR ''.''), Plus Digit]
      (''.'' @ y @ ''.'' @ z) (after b x) t"
    unfolding accepts_Cons [of "Lit _" "[_, _, _]"]
    by (intro exI [of _ "''.''"] exI [of _ "y @ ''.'' @ z"]) simp
  then show "accepts [Plus Digit, Lit (CHR ''.''), Plus Digit, Lit (CHR ''.''), Plus Digit] v b t"
    unfolding accepts_Cons [of "Many _ _ _" "[_, _, _, _]"] using * v
    by (intro exI [of _ x] exI [of _ "''.'' @ y @ ''.'' @ z"]) (simp add: digits_def)
qed

lemma iso_shape_iff:
  "iso_shape d \<longleftrightarrow>
     (\<exists>y m dd. d = y @ ''-'' @ m @ ''-'' @ dd \<and> length y = 4 \<and> length m = 2 \<and> length dd = 2 \<and>
        list_all is_digit y \<and> list_all is_digit m \<and> list_all is_digit dd)"
proof
  assume "iso_shape d"
  then have len: "length d = 10" and parts: "list_all is_digit (slice d 0 4)" "slice d 4 5 = ''-''"
    "list_all is_digit (slice d 5 7)" "slice d 7 8 = ''-''" "list_all is_digit (slice d 8 10)"
    by (auto simp: iso_shape_def)
  have "d = take 4 d @ drop 4 d" by simp
  also have "drop 4 d = take 1 (drop 4 d) @ drop 5 d"
    using append_take_drop_id [of 1 "drop 4 d"] by simp
  also have "drop 5 d = take 2 (drop 5 d) @ drop 7 d"
    using append_take_drop_id [of 2 "drop 5 d"] by simp
  also have "drop 7 d = take 1 (drop 7 d) @ drop 8 d"
    using append_take_drop_id [of 1 "drop 7 d"] by simp
  also have "drop 8 d = take 2 (drop 8 d)"
    using len by simp
  finally have "d = slice d 0 4 @ slice d 4 5 @ slice d 5 7 @ slice d 7 8 @ slice d 8 10"
    by (simp add: slice_def)
  with parts len show "\<exists>y m dd. d = y @ ''-'' @ m @ ''-'' @ dd \<and> length y = 4 \<and> length m = 2 \<and> length dd = 2 \<and>
        list_all is_digit y \<and> list_all is_digit m \<and> list_all is_digit dd"
    by (intro exI [of _ "slice d 0 4"] exI [of _ "slice d 5 7"] exI [of _ "slice d 8 10"])
      (simp add: slice_def)
next
  assume "\<exists>y m dd. d = y @ ''-'' @ m @ ''-'' @ dd \<and> length y = 4 \<and> length m = 2 \<and> length dd = 2 \<and>
        list_all is_digit y \<and> list_all is_digit m \<and> list_all is_digit dd"
  then show "iso_shape d"
    by (auto simp: iso_shape_def slice_def)
qed

lemma accepts_date: "accepts date_items d b t \<longleftrightarrow> iso_shape d"
proof
  assume "accepts date_items d b t"
  then obtain y m dd where "d = y @ ''-'' @ m @ ''-'' @ dd" "length y = 4" "length m = 2"
    "length dd = 2" "list_all is_digit y" "list_all is_digit m" "list_all is_digit dd"
    by (auto simp: date_items_def accepts_Cons accepts_Nil)
  then show "iso_shape d"
    unfolding iso_shape_iff by blast
next
  assume "iso_shape d"
  then obtain y m dd where d: "d = y @ ''-'' @ m @ ''-'' @ dd" and
    *: "length y = 4" "length m = 2" "length dd = 2" "list_all is_digit y"
       "list_all is_digit m" "list_all is_digit dd"
    unfolding iso_shape_iff by blast
  have "accepts [Rep 2 Digit] dd (after (after (after (after b y) ''-'') m) ''-'') t"
    using * by (simp add: accepts_single)
  then have "accepts [Lit (CHR ''-''), Rep 2 Digit] (''-'' @ dd) (after (after (after b y) ''-'') m) t"
    unfolding accepts_Cons [of "Lit _"] by (intro exI conjI; (rule refl | simp))
  then have "accepts [Rep 2 Digit, Lit (CHR ''-''), Rep 2 Digit] (m @ ''-'' @ dd)
      (after (after b y) ''-'') t"
    unfolding accepts_Cons [of "Many _ _ _" "[_, _]"] using *
    by (intro exI [of _ m] exI [of _ "''-'' @ dd"]) simp
  then have "accepts [Lit (CHR ''-''), Rep 2 Digit, Lit (CHR ''-''), Rep 2 Digit]
      (''-'' @ m @ ''-'' @ dd) (after b y) t"
    unfolding accepts_Cons [of "Lit _" "[_, _, _]"]
    by (intro exI [of _ "''-''"] exI [of _ "m @ ''-'' @ dd"]) simp
  then show "accepts date_items d b t"
    unfolding date_items_def accepts_Cons [of "Many _ _ _" "[_, _, _, _]"] using * d
    by (intro exI [of _ y] exI [of _ "''-'' @ m @ ''-'' @ dd"]) simp
qed

lemma accepts_version_pattern:
  "accepts (map snd (version_pattern v)) h b t \<longleftrightarrow> b \<and> heading_text v h \<and> line_end t"
proof
  assume "accepts (map snd (version_pattern v)) h b t"
  then obtain w1 w2 w3 d w4 where "h = (''##'' @ w1) @ v @ (w2 @ ''-'' @ w3) @ d @ w4"
    b "blanks w1" "blanks w2" "blanks w3" "iso_shape d" "list_all is_space w4" "line_end t"
    unfolding version_pattern_def map_snd_ungrouped accepts_append accepts_open accepts_Lits
      accepts_hyphen accepts_date accepts_close
    by blast
  then show "b \<and> heading_text v h \<and> line_end t"
    unfolding heading_text_def by simp blast
next
  assume "b \<and> heading_text v h \<and> line_end t"
  then obtain w1 w2 w3 d w4 where h: "h = (''##'' @ w1) @ v @ (w2 @ ''-'' @ w3) @ d @ w4"
    and *: b "blanks w1" "blanks w2" "blanks w3" "iso_shape d" "list_all is_space w4" "line_end t"
    unfolding heading_text_def by auto
  show "accepts (map snd (version_pattern v)) h b t"
    unfolding version_pattern_def map_snd_ungrouped accepts_append accepts_open accepts_Lits
      accepts_hyphen accepts_date accepts_close h
    using * by blast
qed

lemma accepts_any_heading_pattern:
  "accepts (map snd any_heading_pattern) h b t \<longleftrightarrow>
     b \<and> (\<exists>v. version_shape v \<and> heading_text v h) \<and> line_end t"
proof -
  have items: "map snd any_heading_pattern =
      [Bol, Lit (CHR ''#''), Lit (CHR ''#''), Plus Space] @
      [Plus Digit, Lit (CHR ''.''), Plus Digit, Lit (CHR ''.''), Plus Digit] @
      [Plus Space, Lit (CHR ''-''), Plus Space] @ date_items @ [Star Space, Eol]"
    by (simp add: any_heading_pattern_def)
  show ?thesis
  proof
    assume "accepts (map snd any_heading_pattern) h b t"
    then obtain w1 v w2 w3 d w4 where "h = (''##'' @ w1) @ v @ (w2 @ ''-'' @ w3) @ d @ w4"
      b "blanks w1" "version_shape v" "blanks w2" "blanks w3" "iso_shape d"
      "list_all is_space w4" "line_end t"
      unfolding items accepts_append accepts_open accepts_version
        accepts_hyphen accepts_date accepts_close
      by blast
    then have "b \<and> version_shape v \<and> heading_text v h \<and> line_end t"
      unfolding heading_text_def by simp blast
    then show "b \<and> (\<exists>v. version_shape v \<and> heading_text v h) \<and> line_end t" by blast
  next
    assume "b \<and> (\<exists>v. version_shape v \<and> heading_text v h) \<and> line_end t"
    then obtain v w1 w2 w3 d w4 where h: "h = (''##'' @ w1) @ v @ (w2 @ ''-'' @ w3) @ d @ w4"
      and *: b "version_shape v" "blanks w1" "blanks w2" "blanks w3" "iso_shape d"
        "list_all is_space w4" "line_end t"
      unfolding heading_text_def by auto
    show "accepts (map snd any_heading_pattern) h b t"
      unfolding items accepts_append accepts_open accepts_version
        accepts_hyphen accepts_date accepts_close h
      using * by blast
  qed
qed

lemma HEADING_RE_items: "map snd HEADING_RE = map snd any_heading_pattern"
  by (simp add: HEADING_RE_def any_heading_pattern_def date_items_def)

lemma heading_match_nonempty:
  assumes "rmatch (map snd HEADING_RE) b s = Some ws"
  shows "concat ws \<noteq> []"
proof -
  from rmatch_sound [OF assms] obtain t where
    "accepts (map snd any_heading_pattern) (concat ws) b t"
    by (auto simp: accepts_def HEADING_RE_items)
  then obtain v where "heading_text v (concat ws)"
    unfolding accepts_any_heading_pattern by blast
  then obtain w where "concat ws = CHR ''#'' # w"
    by (auto simp: heading_text_def)
  then show ?thesis
    by (metis list.distinct(1))
qed

section \<open>Searching a document\<close>

lemma flag_at_0 [simp]: "flag_at b s 0 = b"
  by (simp add: flag_at_def)

lemma flag_at_Suc [simp]: "flag_at b (c # cs) (Suc i) = flag_at (c = newline) cs i"
  by (cases i) (simp_all add: flag_at_def)

lemma search_at_iff:
  "search_at p b s = Some (i, ws) \<longleftrightarrow>
     i \<le> length s \<and> rmatch p (flag_at b s i) (drop i s) = Some ws \<and>
     (\<forall>j<i. rmatch p (flag_at b s j) (drop j s) = None)"
proof (induction s arbitrary: b i)
  case Nil
  then show ?case by auto
next
  case (Cons c cs)
  show ?case
  proof (cases "rmatch p b (c # cs)")
    case None
    show ?thesis
    proof (cases i)
      case 0
      with None show ?thesis by simp
    next
      case (Suc k)
      have "(\<forall>j<Suc k. rmatch p (flag_at b (c # cs) j) (drop j (c # cs)) = None) \<longleftrightarrow>
          (\<forall>j<k. rmatch p (flag_at (c = newline) cs j) (drop j cs) = None)"
        using None by (auto simp: less_Suc_eq_0_disj)
      with None Suc Cons.IH [of "c = newline" k] show ?thesis
        by auto
    qed
  next
    case (Some vs)
    then show ?thesis
      by (cases i) auto
  qed
qed

lemma search_at_None_iff:
  "search_at p b s = None \<longleftrightarrow> (\<forall>j\<le>length s. rmatch p (flag_at b s j) (drop j s) = None)"
proof (induction s arbitrary: b)
  case Nil
  then show ?case by simp
next
  case (Cons c cs)
  have "(\<forall>j\<le>length (c # cs). rmatch p (flag_at b (c # cs) j) (drop j (c # cs)) = None) \<longleftrightarrow>
      rmatch p b (c # cs) = None \<and>
      (\<forall>j\<le>length cs. rmatch p (flag_at (c = newline) cs j) (drop j cs) = None)"
    (is "?L \<longleftrightarrow> ?A \<and> ?R")
  proof
    assume l: ?L
    from l [rule_format, of 0] have ?A by simp
    moreover have ?R
    proof (intro allI impI)
      fix j assume "j \<le> length cs"
      with l [rule_format, of "Suc j"]
      show "rmatch p (flag_at (c = newline) cs j) (drop j cs) = None" by simp
    qed
    ultimately show "?A \<and> ?R" ..
  next
    assume ar: "?A \<and> ?R"
    show ?L
    proof (intro allI impI)
      fix j assume j: "j \<le> length (c # cs)"
      show "rmatch p (flag_at b (c # cs) j) (drop j (c # cs)) = None"
      proof (cases j)
        case 0
        with ar show ?thesis by simp
      next
        case (Suc k)
        with j ar show ?thesis by simp
      qed
    qed
  qed
  with Cons.IH [of "c = newline"] show ?case
    by (simp split: option.splits)
qed

lemma line_start_flag: "line_start content i = flag_at True content i"
  by (simp add: line_start_def flag_at_def)

lemma heading_at_iff:
  "heading_at v content i \<longleftrightarrow>
     i \<le> length content \<and>
     rmatch (map snd (version_pattern v)) (flag_at True content i) (drop i content) \<noteq> None"
proof
  assume "heading_at v content i"
  then obtain h t where i: "i \<le> length content" and "line_start content i"
    and d: "drop i content = h @ t" and "heading_text v h" "line_end t"
    by (auto simp: heading_at_def)
  then have "accepts (map snd (version_pattern v)) h (flag_at True content i) t"
    by (simp add: accepts_version_pattern line_start_flag)
  from accepts_rmatch [OF this] d i
  show "i \<le> length content \<and>
     rmatch (map snd (version_pattern v)) (flag_at True content i) (drop i content) \<noteq> None"
    by auto
next
  assume *: "i \<le> length content \<and>
     rmatch (map snd (version_pattern v)) (flag_at True content i) (drop i content) \<noteq> None"
  then obtain ws where
    "rmatch (map snd (version_pattern v)) (flag_at True content i) (drop i content) = Some ws"
    by auto
  from rmatch_sound [OF this] obtain t where "drop i content = concat ws @ t"
    "accepts (map snd (version_pattern v)) (concat ws) (flag_at True content i) t"
    by (auto simp: accepts_def)
  with * show "heading_at v content i"
    by (auto simp: heading_at_def accepts_version_pattern line_start_flag)
qed

lemma any_heading_at_iff:
  "any_heading_at content i \<longleftrightarrow>
     i \<le> length content \<and>
     rmatch (map snd any_heading_pattern) (flag_at True content i) (drop i content) \<noteq> None"
proof
  assume "any_heading_at content i"
  then obtain v h t where i: "i \<le> length content" and "line_start content i"
    and d: "drop i content = h @ t" and "version_shape v" "heading_text v h" "line_end t"
    by (auto simp: any_heading_at_def heading_at_def)
  then have "accepts (map snd any_heading_pattern) h (flag_at True content i) t"
    unfolding accepts_any_heading_pattern line_start_flag by blast
  from accepts_rmatch [OF this] d i
  show "i \<le> length content \<and>
     rmatch (map snd any_heading_pattern) (flag_at True content i) (drop i content) \<noteq> None"
    by auto
next
  assume *: "i \<le> length content \<and>
     rmatch (map snd any_heading_pattern) (flag_at True content i) (drop i content) \<noteq> None"
  then obtain ws where
    "rmatch (map snd any_heading_pattern) (flag_at True content i) (drop i content) = Some ws"
    by auto
  from rmatch_sound [OF this] obtain t where "drop i content = concat ws @ t"
    "accepts (map snd any_heading_pattern) (concat ws) (flag_at True content i) t"
    by (auto simp: accepts_def)
  with * show "any_heading_at content i"
    unfolding any_heading_at_def heading_at_def accepts_any_heading_pattern line_start_flag
    by blast
qed

lemma find_from_sound:
  "(i, ws) \<in> set (find_from p b s off) \<Longrightarrow> \<exists>b' s'. rmatch p b' s' = Some ws"
proof (induction p b s off rule: find_from.induct)
  case (1 p b s off)
  show ?case
  proof (cases "search_at p b s")
    case None
    with "1.prems" show ?thesis by (simp add: find_from.simps [of p b s off])
  next
    case (Some m)
    obtain k vs where m: "m = (k, vs)" by (cases m)
    let ?e = "k + length (concat vs)"
    from "1.prems" Some m have
      "(i, ws) = (off + k, vs) \<or>
       (?e \<noteq> 0 \<and> (i, ws) \<in> set (find_from p (s ! (?e - 1) = newline) (drop ?e s) (off + ?e)))"
      by (auto simp: find_from.simps [of p b s off] Let_def split: if_splits)
    then show ?thesis
    proof
      assume "(i, ws) = (off + k, vs)"
      with Some m show ?thesis by (auto simp: search_at_iff)
    next
      assume "?e \<noteq> 0 \<and> (i, ws) \<in> set (find_from p (s ! (?e - 1) = newline) (drop ?e s) (off + ?e))"
      with "1.IH" [OF Some m [symmetric] refl] show ?thesis by simp
    qed
  qed
qed

lemma heading_groups:
  assumes "rmatch (map snd HEADING_RE) b s = Some ws"
  shows "version_shape (group HEADING_RE (i, ws) ''version'') \<and>
         iso_shape (group HEADING_RE (i, ws) ''date'')"
proof -
  from rmatch_sound [OF assms] obtain t where "matches (map snd HEADING_RE) ws b t" by blast
  then obtain w0 w1 w2 w3 a p1 bb p2 c w9 w10 w11 y q1 m q2 dd w17 w18 where
    ws: "ws = [w0, w1, w2, w3, a, p1, bb, p2, c, w9, w10, w11, y, q1, m, q2, dd, w17, w18]"
    and *: "digits a" "p1 = ''.''" "digits bb" "p2 = ''.''" "digits c"
      "list_all is_digit y" "length y = 4" "q1 = ''-''" "list_all is_digit m" "length m = 2"
      "q2 = ''-''" "list_all is_digit dd" "length dd = 2"
    by (auto simp: HEADING_RE_def ungrouped_def named_def matches_Cons matches_Nil digits_def)
  have "group HEADING_RE (i, ws) ''version'' = a @ ''.'' @ bb @ ''.'' @ c"
    using * by (simp add: group_def HEADING_RE_def ungrouped_def named_def ws)
  moreover have "group HEADING_RE (i, ws) ''date'' = y @ ''-'' @ m @ ''-'' @ dd"
    using * by (simp add: group_def HEADING_RE_def ungrouped_def named_def ws)
  ultimately show ?thesis
    using * unfolding version_shape_def iso_shape_iff by blast
qed

lemma load_headings_shapes:
  assumes "fs p = Some content" "load_headings fs p = Inr hs" "(v, d) \<in> set hs"
  shows "version_shape v \<and> iso_shape d"
proof -
  from assms obtain m where "m \<in> set (finditer HEADING_RE content)"
    "v = group HEADING_RE m ''version''" "d = group HEADING_RE m ''date''"
    by (auto simp: load_headings_def read_text_def)
  moreover obtain i ws where "m = (i, ws)" by (cases m)
  ultimately show ?thesis
    using find_from_sound [of i ws "map snd HEADING_RE" True content 0] heading_groups
    by (auto simp: finditer_def)
qed

lemma split_on_nonempty: "split_on sep s \<noteq> []"
  by (induction s) (auto split: list.splits)

lemma split_on_no_sep: "sep \<notin> set w \<Longrightarrow> split_on sep w = [w]"
  by (induction w) auto

lemma split_on_append: "sep \<notin> set a \<Longrightarrow> split_on sep (a @ sep # r) = a # split_on sep r"
  by (induction a) (auto split: list.splits)

lemma is_digit_not_dot: "is_digit c \<Longrightarrow> c \<noteq> CHR ''.''"
  unfolding is_digit_def by auto

lemma digits_no_dot: "digits a \<Longrightarrow> CHR ''.'' \<notin> set a"
  using is_digit_not_dot by (auto simp: digits_def list_all_iff)

lemma py_int_digits: "digits a \<Longrightarrow> py_int a = Inr (int (decimal 0 a))"
  by (simp add: py_int_def digits_def)

lemma parse_semver_shape:
  assumes "version_shape v"
  shows "\<exists>t. parse_semver v = Inr t"
proof -
  from assms obtain a b c where v: "v = a @ ''.'' @ b @ ''.'' @ c"
    and d: "digits a" "digits b" "digits c"
    by (auto simp: version_shape_def)
  have "split_on (CHR ''.'') v = [a, b, c]"
    using d by (simp add: v split_on_append split_on_no_sep digits_no_dot)
  with d show ?thesis
    by (simp add: parse_semver_def py_int_digits)
qed

section \<open>The validation loop and the per-heading verdicts\<close>

lemma validate_changelog_unfold:
  assumes "fs p = Some content" "load_headings fs p = Inr hs"
  shows "validate_changelog fs p =
    (if \<not> startswith content ''# Changelog'' then Inr (False, title_diagnostic)
     else if hs = [] then Inr (False, no_headings_diagnostic)
     else (case validate_loop {} None hs of
             Inl e \<Rightarrow> Inl e
           | Inr (Some msg) \<Rightarrow> Inr (False, msg)
           | Inr None \<Rightarrow> Inr (True, fst (hd hs))))"
proof (cases hs)
  case Nil
  with assms show ?thesis
    by (simp add: validate_changelog_def read_text_def title_diagnostic_def
        no_headings_diagnostic_def)
next
  case (Cons h rest)
  with assms show ?thesis
    by (simp add: validate_changelog_def read_text_def title_diagnostic_def
        split: sum.splits option.splits del: validate_loop.simps)
qed

lemma date_fromisoformat_cases:
  "(\<exists>t. date_fromisoformat d = Inr t) \<or> (\<exists>m. date_fromisoformat d = Inl (ValueError m))"
  by (simp add: date_fromisoformat_def Let_def)

lemma valid_date_iff: "valid_date d \<longleftrightarrow> (\<exists>t. date_fromisoformat d = Inr t)"
  by (auto simp: valid_date_def split: sum.splits)

lemma validate_loop_step:
  assumes n: "n < length hs"
    and parse: "\<forall>h \<in> set hs. \<exists>t. parse_semver (fst h) = Inr t"
  shows "validate_loop (set (map fst (take n hs))) (previous_before hs n) (drop n hs) =
    (case heading_verdict hs n of
       Passes \<Rightarrow>
         validate_loop (set (map fst (take (Suc n) hs))) (previous_before hs (Suc n))
           (drop (Suc n) hs)
     | v \<Rightarrow> Inr (Some (diagnostic v)))"
proof -
  obtain v d where h: "hs ! n = (v, d)" by (cases "hs ! n")
  from n have dr: "drop n hs = (v, d) # drop (Suc n) hs"
    by (simp add: h flip: Cons_nth_drop_Suc)
  from n have tk: "set (map fst (take (Suc n) hs)) = insert v (set (map fst (take n hs)))"
    by (simp add: take_Suc_conv_app_nth h)
  from parse n h obtain t where t: "parse_semver v = Inr t"
    by (metis fst_conv nth_mem)
  have nx: "previous_before hs (Suc n) = Some t"
    by (simp add: previous_before_def h t)
  show ?thesis
  proof (cases "v \<in> set (map fst (take n hs))")
    case True
    then show ?thesis
      by (simp add: dr heading_verdict_def h)
  next
    case fresh: False
    show ?thesis
    proof (cases "valid_date d")
      case False
      with date_fromisoformat_cases [of d] obtain m where
        "date_fromisoformat d = Inl (ValueError m)"
        by (auto simp: valid_date_iff)
      with fresh False show ?thesis
        by (simp add: dr heading_verdict_def h)
    next
      case True
      then obtain dt where dt: "date_fromisoformat d = Inr dt"
        by (auto simp: valid_date_iff)
      have ord: "(0 < n \<and> not_below v (fst (hs ! (n - 1)))) \<longleftrightarrow>
          (case previous_before hs n of None \<Rightarrow> False | Some u \<Rightarrow> t \<ge> u)"
      proof (cases n)
        case 0
        then show ?thesis by (simp add: previous_before_def)
      next
        case (Suc k)
        with n parse obtain u where u: "parse_semver (fst (hs ! k)) = Inr u"
          by (metis Suc_lessD nth_mem)
        then show ?thesis
          by (simp add: previous_before_def Suc not_below_def t)
      qed
      have "heading_verdict hs n =
          (if (case previous_before hs n of None \<Rightarrow> False | Some u \<Rightarrow> t \<ge> u)
           then NotDescending else Passes)"
        using fresh True ord by (simp add: heading_verdict_def h)
      with fresh dt t tk nx show ?thesis
        by (simp add: dr ordering_diagnostic_def)
    qed
  qed
qed

lemma validate_loop_pass:
  assumes parse: "\<forall>h \<in> set hs. \<exists>t. parse_semver (fst h) = Inr t"
    and pass: "\<forall>j. n \<le> j \<and> j < length hs \<longrightarrow> heading_verdict hs j = Passes"
    and n: "n \<le> length hs"
  shows "validate_loop (set (map fst (take n hs))) (previous_before hs n) (drop n hs) = Inr None"
  using pass n
proof (induction "length hs - n" arbitrary: n)
  case 0
  then show ?case by simp
next
  case (Suc k)
  then have n: "n < length hs" by simp
  from Suc.prems n have "heading_verdict hs n = Passes" by simp
  with validate_loop_step [OF n parse] Suc.hyps(1) [of "Suc n"] Suc.hyps(2) Suc.prems n
  show ?case by simp
qed

lemma validate_loop_fail:
  assumes parse: "\<forall>h \<in> set hs. \<exists>t. parse_semver (fst h) = Inr t"
    and i: "i < length hs"
    and fail: "heading_verdict hs i \<noteq> Passes"
    and pass: "\<forall>j. n \<le> j \<and> j < i \<longrightarrow> heading_verdict hs j = Passes"
    and n: "n \<le> i"
  shows "validate_loop (set (map fst (take n hs))) (previous_before hs n) (drop n hs) =
    Inr (Some (diagnostic (heading_verdict hs i)))"
  using pass n
proof (induction "i - n" arbitrary: n)
  case 0
  then have "n = i" by simp
  with validate_loop_step [OF i parse] fail show ?case
    by (cases "heading_verdict hs i") simp_all
next
  case (Suc k)
  then have n: "n < i" by simp
  with i have nl: "n < length hs" by simp
  from Suc.prems n have "heading_verdict hs n = Passes" by simp
  with validate_loop_step [OF nl parse] Suc.hyps(1) [of "Suc n"] Suc.hyps(2) Suc.prems n
  show ?case by simp
qed

lemma load_headings_total:
  "fs p = Some content \<Longrightarrow> \<exists>hs. load_headings fs p = Inr hs"
  by (simp add: load_headings_def read_text_def)

lemma validate_loop_not_title:
  "validate_loop seen prev hs = Inr (Some msg) \<Longrightarrow> msg \<noteq> title_diagnostic"
proof (induction seen prev hs rule: validate_loop.induct)
  case (1 seen prev)
  then show ?case by simp
next
  case (2 seen prev version date_value rest)
  then show ?case
    by (auto simp: title_diagnostic_def split: if_splits sum.splits error.splits option.splits)
qed

lemma distinct_nth_not_before:
  assumes "distinct xs" "j < length xs"
  shows "xs ! j \<notin> set (take j xs)"
proof -
  from assms(2) have "xs = take j xs @ xs ! j # drop (Suc j) xs"
    by (rule id_take_nth_drop)
  with assms(1) have "distinct (take j xs @ xs ! j # drop (Suc j) xs)" by simp
  then show ?thesis by auto
qed

lemma least_failure:
  assumes "i < length hs" "heading_verdict hs i \<noteq> Passes"
  obtains k where "k \<le> i" "heading_verdict hs k \<noteq> Passes"
    "\<forall>j<k. heading_verdict hs j = Passes"
proof -
  let ?P = "\<lambda>k. heading_verdict hs k \<noteq> Passes"
  from assms(2) have "?P (LEAST k. ?P k)" by (rule LeastI)
  moreover from assms(2) have "(LEAST k. ?P k) \<le> i" by (rule Least_le)
  moreover have "\<forall>j<(LEAST k. ?P k). heading_verdict hs j = Passes"
    using not_less_Least by blast
  ultimately show thesis using that by blast
qed

lemma heading_verdict_take:
  assumes "j < n"
  shows "heading_verdict (take n hs) j = heading_verdict hs j"
proof -
  from assms have "take j (take n hs) = take j hs" by (simp add: min_absorb1)
  moreover from assms have "take n hs ! j = hs ! j" "take n hs ! (j - 1) = hs ! (j - 1)"
    by simp_all
  ultimately show ?thesis by (simp add: heading_verdict_def)
qed

lemma load_headings_parse:
  assumes "fs p = Some content" "load_headings fs p = Inr hs"
  shows "\<forall>h \<in> set hs. \<exists>t. parse_semver (fst h) = Inr t"
proof
  fix h assume "h \<in> set hs"
  then have "(fst h, snd h) \<in> set hs" by simp
  from load_headings_shapes [OF assms this] have "version_shape (fst h)" ..
  then show "\<exists>t. parse_semver (fst h) = Inr t"
    by (rule parse_semver_shape)
qed

lemma validate_first_failure:
  assumes read: "fs p = Some content"
    and title: "startswith content ''# Changelog''"
    and hs: "load_headings fs p = Inr hs"
    and i: "i < length hs"
    and pass: "\<forall>j<i. heading_verdict hs j = Passes"
    and fail: "heading_verdict hs i \<noteq> Passes"
  shows "validate_changelog fs p = Inr (False, diagnostic (heading_verdict hs i))"
proof -
  have "validate_loop (set (map fst (take 0 hs))) (previous_before hs 0) (drop 0 hs) =
      Inr (Some (diagnostic (heading_verdict hs i)))"
    by (rule validate_loop_fail [OF load_headings_parse [OF read hs] i fail]) (simp_all add: pass)
  then have "validate_loop {} None hs = Inr (Some (diagnostic (heading_verdict hs i)))"
    by (simp add: previous_before_def)
  moreover from i have "hs \<noteq> []" by auto
  ultimately show ?thesis
    using title by (simp add: validate_changelog_unfold [OF read hs])
qed

lemma validate_all_pass:
  assumes read: "fs p = Some content"
    and title: "startswith content ''# Changelog''"
    and hs: "load_headings fs p = Inr hs"
    and nonempty: "hs \<noteq> []"
    and pass: "\<forall>j<length hs. heading_verdict hs j = Passes"
  shows "validate_changelog fs p = Inr (True, fst (hd hs))"
proof -
  have "validate_loop (set (map fst (take 0 hs))) (previous_before hs 0) (drop 0 hs) = Inr None"
    by (rule validate_loop_pass [OF load_headings_parse [OF read hs]]) (simp_all add: pass)
  then have "validate_loop {} None hs = Inr None"
    by (simp add: previous_before_def)
  with title nonempty show ?thesis
    by (simp add: validate_changelog_unfold [OF read hs])
qed

lemma heading_verdict_fresh_valid:
  assumes "fst (hs ! k) \<notin> set (map fst (take k hs))" "valid_date (snd (hs ! k))"
  shows "heading_verdict hs k =
    (if 0 < k \<and> not_below (fst (hs ! k)) (fst (hs ! (k - 1))) then NotDescending else Passes)"
  using assms by (simp add: heading_verdict_def)

lemma heading_verdict_Passes:
  "heading_verdict hs k = Passes \<Longrightarrow>
     fst (hs ! k) \<notin> set (map fst (take k hs)) \<and> valid_date (snd (hs ! k))"
  by (auto simp: heading_verdict_def split: if_splits)

lemma heading_verdict_NotDescending:
  "heading_verdict hs k = NotDescending \<longleftrightarrow>
     fst (hs ! k) \<notin> set (map fst (take k hs)) \<and> valid_date (snd (hs ! k)) \<and>
     0 < k \<and> not_below (fst (hs ! k)) (fst (hs ! (k - 1)))"
  by (auto simp: heading_verdict_def split: if_splits)

lemma diagnostic_ordering:
  "diagnostic v = ordering_diagnostic \<longleftrightarrow> v = NotDescending"
  by (cases v) (auto simp: ordering_diagnostic_def)

lemma distinct_take_fresh:
  assumes "k < length xs" "\<forall>j\<le>k. xs ! j \<notin> set (take j xs)"
  shows "distinct (take (Suc k) xs)"
  using assms
proof (induction k)
  case 0
  then show ?case by (cases xs) auto
next
  case (Suc k)
  then have "distinct (take (Suc k) xs)" by simp
  moreover from Suc.prems have "xs ! Suc k \<notin> set (take (Suc k) xs)" by blast
  ultimately show ?case
    using Suc.prems(1) by (simp add: take_Suc_conv_app_nth [of "Suc k"])
qed

lemma fresh_of_distinct_take:
  assumes "distinct (map fst (take (Suc i) hs))" "k \<le> i" "i < length hs"
  shows "fst (hs ! k) \<notin> set (map fst (take k hs))"
proof -
  let ?xs = "map fst (take (Suc i) hs)"
  from assms have k: "k < length ?xs" by simp
  from distinct_nth_not_before [OF assms(1) k]
  have "?xs ! k \<notin> set (take k ?xs)" .
  moreover from assms have "?xs ! k = fst (hs ! k)" by simp
  moreover from assms have "take k ?xs = map fst (take k hs)"
    by (simp add: take_map min_absorb1)
  ultimately show ?thesis by simp
qed

section \<open>The title check\<close>



section \<open>Validation depends on the text of the document only\<close>

text \<open>
  Claim C10. Validation is deterministic: two runs on the same unchanged document
  text give the same result, success or failure, with the same version or message.
  A run reads the file at the path and nothing else, so any two states of the file
  system that hold the same text at the path give the same result.
\<close>

theorem validate_changelog_same_text:
  assumes "fs p = fs' p"
  shows "validate_changelog fs p = validate_changelog fs' p"
  unfolding validate_changelog_def load_headings_def read_text_def assms ..

theorem validate_changelog_same_text_witness:
  "single_file ''CHANGELOG.md'' two_releases ''CHANGELOG.md'' =
     ((single_file ''CHANGELOG.md'' two_releases)(''notes.txt'' \<mapsto> ''x'')) ''CHANGELOG.md'' \<and>
   validate_changelog (single_file ''CHANGELOG.md'' two_releases) ''CHANGELOG.md'' =
     validate_changelog ((single_file ''CHANGELOG.md'' two_releases)(''notes.txt'' \<mapsto> ''x''))
       ''CHANGELOG.md''"
proof -
  have h: "single_file ''CHANGELOG.md'' two_releases ''CHANGELOG.md'' =
     ((single_file ''CHANGELOG.md'' two_releases)(''notes.txt'' \<mapsto> ''x'')) ''CHANGELOG.md''"
    by simp
  from validate_changelog_same_text
    [of "single_file ''CHANGELOG.md'' two_releases" "''CHANGELOG.md''"
      "(single_file ''CHANGELOG.md'' two_releases)(''notes.txt'' \<mapsto> ''x'')", OF h] h
  show ?thesis by simp
qed

section \<open>Well-formed documents validate\<close>



section \<open>The first failing heading decides\<close>



section \<open>The order check compares numeric triples\<close>




section \<open>Dates that are no calendar dates\<close>




section \<open>Release notes\<close>

lemma extract_release_notes_unfold:
  assumes "fs p = Some content"
  shows "extract_release_notes fs p version =
    (case search_at (map snd (version_pattern version)) True content of
       None \<Rightarrow> Inl (ValueError (''No changelog entry for '' @ version))
     | Some (i, ws) \<Rightarrow>
         (let e = i + length (concat ws) in
          case search_at (map snd any_heading_pattern) True (drop e content) of
            None \<Rightarrow> Inr (notes_or_placeholder version (drop e content))
          | Some (k, vs) \<Rightarrow> Inr (notes_or_placeholder version (take k (drop e content)))))"
  using assms
  by (auto simp: extract_release_notes_def read_text_def re_search_def m_end_def m_start_def
      Let_def slice_def notes_or_placeholder_def split: option.splits)

lemma heading_text_starts:
  assumes "heading_text v h"
  obtains w where "h = ''##'' @ w"
  using assms unfolding heading_text_def by auto

lemma no_heading_at_line_end:
  assumes "line_end t"
  shows "rmatch (map snd any_heading_pattern) b t = None"
proof (rule ccontr)
  assume "rmatch (map snd any_heading_pattern) b t \<noteq> None"
  then obtain ws where "rmatch (map snd any_heading_pattern) b t = Some ws" by auto
  from rmatch_sound [OF this] obtain u where t: "t = concat ws @ u"
    and "accepts (map snd any_heading_pattern) (concat ws) b u"
    by (auto simp: accepts_def)
  then obtain v where "heading_text v (concat ws)"
    unfolding accepts_any_heading_pattern by blast
  then obtain w where "concat ws = ''##'' @ w" by (rule heading_text_starts)
  with t assms show False by (auto simp: line_end_def)
qed

lemma flag_at_drop:
  assumes "0 < j" "e + j \<le> length content"
  shows "flag_at b (drop e content) j = flag_at b' content (e + j)"
  using assms by (simp add: flag_at_def)

lemma any_heading_at_drop:
  assumes le: "line_end (drop e content)" and j: "e + j \<le> length content"
  shows "any_heading_at content (e + j) \<longleftrightarrow>
    rmatch (map snd any_heading_pattern) (flag_at True (drop e content) j)
      (drop j (drop e content)) \<noteq> None"
proof (cases j)
  case 0
  with le show ?thesis
    by (simp add: any_heading_at_iff no_heading_at_line_end)
next
  case (Suc n)
  with j have "flag_at True (drop e content) j = flag_at True content (e + j)"
    by (intro flag_at_drop) simp_all
  with j show ?thesis
    by (simp add: any_heading_at_iff add.commute)
qed

lemma extract_after_first_heading:
  assumes read: "fs p = Some content"
    and at: "heading_at version content i"
    and first: "\<forall>j<i. \<not> heading_at version content j"
  shows "\<exists>h body rest.
    drop i content = h @ body @ rest \<and> heading_text version h \<and> line_end (body @ rest) \<and>
    (\<forall>j<length body. \<not> any_heading_at content (i + length h + j)) \<and>
    (rest = [] \<or> any_heading_at content (i + length h + length body)) \<and>
    extract_release_notes fs p version = Inr (notes_or_placeholder version body)"
proof -
  let ?vp = "map snd (version_pattern version)"
  let ?ap = "map snd any_heading_pattern"
  from at have i: "i \<le> length content" by (simp add: heading_at_def)
  from at obtain ws where ws: "rmatch ?vp (flag_at True content i) (drop i content) = Some ws"
    by (auto simp: heading_at_iff)
  have "\<forall>j<i. rmatch ?vp (flag_at True content j) (drop j content) = None"
    using first i by (simp add: heading_at_iff)
  with i ws have found: "search_at ?vp True content = Some (i, ws)"
    by (simp add: search_at_iff)
  define h where "h = concat ws"
  define e where "e = i + length h"
  define t where "t = drop e content"
  from rmatch_sound [OF ws] obtain u where u: "drop i content = h @ u"
    and "accepts ?vp h (flag_at True content i) u"
    by (auto simp: accepts_def h_def)
  then have ht: "heading_text version h" and "line_end u"
    by (simp_all add: accepts_version_pattern)
  have "t = drop (length h) (drop i content)"
    by (simp add: t_def e_def add.commute)
  with u have tu: "t = u" by simp
  with \<open>line_end u\<close> have le: "line_end t" by simp
  from u tu have dt: "drop i content = h @ t" by simp
  then have "length content - i = length h + length t"
    by (metis length_append length_drop)
  with i have len: "e + length t = length content" by (simp add: e_def)
  have ah: "any_heading_at content (e + j) \<longleftrightarrow>
      rmatch ?ap (flag_at True t j) (drop j t) \<noteq> None" if "j \<le> length t" for j
  proof -
    from that len have "e + j \<le> length content" by linarith
    with le show ?thesis
      unfolding t_def by (rule any_heading_at_drop)
  qed
  show ?thesis
  proof (cases "search_at ?ap True t")
    case None
    then have "\<forall>j\<le>length t. rmatch ?ap (flag_at True t j) (drop j t) = None"
      by (simp add: search_at_None_iff)
    with ah have "\<forall>j<length t. \<not> any_heading_at content (e + j)" by simp
    moreover from None found have
      "extract_release_notes fs p version = Inr (notes_or_placeholder version t)"
      by (simp add: extract_release_notes_unfold [of fs p content version, OF read] h_def e_def t_def)
    ultimately show ?thesis
      using dt ht le
      by (intro exI [of _ h] exI [of _ t] exI [of _ "[]"]) (simp add: e_def)
  next
    case (Some m)
    obtain k vs where m: "m = (k, vs)" by (cases m)
    with Some have k: "k \<le> length t"
      and here: "rmatch ?ap (flag_at True t k) (drop k t) = Some vs"
      and before: "\<forall>j<k. rmatch ?ap (flag_at True t j) (drop j t) = None"
      by (simp_all add: search_at_iff)
    from before k ah have "\<forall>j<k. \<not> any_heading_at content (e + j)" by simp
    moreover from here k ah have "any_heading_at content (e + k)" by simp
    moreover from Some m found have
      "extract_release_notes fs p version = Inr (notes_or_placeholder version (take k t))"
      by (simp add: extract_release_notes_unfold [of fs p content version, OF read] h_def e_def t_def)
    ultimately show ?thesis
      using dt ht le k
      by (intro exI [of _ h] exI [of _ "take k t"] exI [of _ "drop k t"])
        (simp add: e_def min_absorb2)
  qed
qed

lemma is_space_not_hash: "is_space c \<Longrightarrow> c \<noteq> CHR ''#''"
  unfolding is_space_def by auto

lemma is_digit_not_hash: "is_digit c \<Longrightarrow> c \<noteq> CHR ''#''"
  unfolding is_digit_def by auto

lemma blanks_no_hash: "list_all is_space w \<Longrightarrow> CHR ''#'' \<notin> set w"
  by (auto simp: list_all_iff dest: is_space_not_hash)

lemma digits_no_hash: "list_all is_digit w \<Longrightarrow> CHR ''#'' \<notin> set w"
  by (auto simp: list_all_iff dest: is_digit_not_hash)

lemma heading_text_no_hash:
  assumes "heading_text v h" "version_shape v"
  shows "CHR ''#'' \<notin> set (drop 2 h)"
proof -
  from assms(1) obtain w1 w2 w3 d w4 where
    h: "h = ''##'' @ w1 @ v @ w2 @ ''-'' @ w3 @ d @ w4" and
    w: "list_all is_space w1" "list_all is_space w2" "list_all is_space w3" "list_all is_space w4"
    and d: "iso_shape d"
    by (auto simp: heading_text_def blanks_def)
  from assms(2) obtain a b c where v: "v = a @ ''.'' @ b @ ''.'' @ c" and
    dv: "list_all is_digit a" "list_all is_digit b" "list_all is_digit c"
    by (auto simp: version_shape_def digits_def)
  from d obtain y m dd where dd: "d = y @ ''-'' @ m @ ''-'' @ dd" and
    ds: "list_all is_digit y" "list_all is_digit m" "list_all is_digit dd"
    unfolding iso_shape_iff by blast
  from w dv ds show ?thesis
    by (simp add: h v dd blanks_no_hash digits_no_hash)
qed

lemma later_heading_after:
  assumes d: "drop i content = h @ t"
    and ht: "heading_text v h" and vs: "version_shape v"
    and k: "i < k" and at: "heading_at u content k"
  shows "i + length h \<le> k"
proof (rule ccontr)
  assume "\<not> i + length h \<le> k"
  define m where "m = k - i"
  with k \<open>\<not> i + length h \<le> k\<close> have m: "k = i + m" "0 < m" "m < length h"
    by simp_all
  from at obtain h' t' where k': "drop k content = h' @ t'" "heading_text u h'"
    and ls: "line_start content k"
    by (auto simp: heading_at_def)
  from k'(2) obtain w where "h' = ''##'' @ w" by (rule heading_text_starts)
  with k'(1) have "hd (drop k content) = CHR ''#''" by simp
  moreover have "drop k content = drop m (drop i content)"
    by (simp add: m add.commute)
  with d m have "drop k content = drop m h @ t"
    by simp
  ultimately have hm: "h ! m = CHR ''#''"
    using m by (simp add: hd_drop_conv_nth)
  show False
  proof (cases "m = 1")
    case True
    from ht obtain w' where "h = ''##'' @ w'" by (rule heading_text_starts)
    with d have "content ! i = CHR ''#''"
      by (metis append_Cons hd_drop_conv_nth list.sel(1) drop_eq_Nil not_le list.distinct(1))
    with ls m True show False
      by (simp add: line_start_def)
  next
    case False
    define n where "n = m - 2"
    with False m have n: "m = 2 + n" by simp
    with m have "drop 2 h ! n = h ! m" "n < length (drop 2 h)"
      by simp_all
    then have "h ! m \<in> set (drop 2 h)"
      by (metis nth_mem)
    with hm heading_text_no_hash [OF ht vs] show False by simp
  qed
qed

lemma search_at_SomeD:
  assumes "search_at p b s = Some (i, ws)"
  shows "i \<le> length s" "rmatch p (flag_at b s i) (drop i s) = Some ws"
    "\<forall>j<i. rmatch p (flag_at b s j) (drop j s) = None"
  using assms search_at_iff [of p b s i ws] by blast+

lemma first_heading_of_search:
  assumes "search_at (map snd (version_pattern v)) True content = Some (i, ws)"
  shows "heading_at v content i" "\<forall>j<i. \<not> heading_at v content j"
proof -
  from search_at_SomeD [OF assms]
  show "heading_at v content i" "\<forall>j<i. \<not> heading_at v content j"
    unfolding heading_at_iff by simp_all
qed

lemma near_miss_two_part:
  "rmatch (map snd any_heading_pattern) b (''## 1.0 - 2024-01-01'' @ t) = None"
  by (simp add: any_heading_pattern_def date_items_def counts_def is_space_def is_digit_def
      after_def)

lemma near_miss_short_date:
  "rmatch (map snd any_heading_pattern) b (''## 1.0.0 - 2024-1-1'' @ t) = None"
  by (simp add: any_heading_pattern_def date_items_def counts_def is_space_def is_digit_def
      after_def)

lemma near_miss_unreleased:
  "rmatch (map snd any_heading_pattern) b (''## Unreleased'' @ t) = None"
  by (simp add: any_heading_pattern_def date_items_def counts_def is_space_def is_digit_def
      after_def)

lemma near_miss_no_heading:
  assumes "l \<in> set near_miss_lines" "drop i content = l @ t"
  shows "\<not> any_heading_at content i"
  using assms near_miss_two_part near_miss_short_date near_miss_unreleased
  by (auto simp: near_miss_lines_def any_heading_at_iff)

lemma load_headings_no_heading:
  assumes read: "fs p = Some content" and none: "\<forall>i. \<not> any_heading_at content i"
  shows "load_headings fs p = Inr []"
proof -
  from none have "\<forall>j\<le>length content.
      rmatch (map snd HEADING_RE) (flag_at True content j) (drop j content) = None"
    by (simp add: any_heading_at_iff HEADING_RE_items)
  then have "search_at (map snd HEADING_RE) True content = None"
    by (simp add: search_at_None_iff)
  then have "finditer HEADING_RE content = []"
    by (simp add: finditer_def find_from.simps [of _ True content 0])
  with read show ?thesis
    by (simp add: load_headings_def read_text_def)
qed

lemma no_heading_of_search:
  assumes "search_at (map snd any_heading_pattern) True content = None"
  shows "\<not> any_heading_at content i"
  using assms by (simp add: search_at_None_iff any_heading_at_iff)







section \<open>Lines that only look like headings\<close>



end
